theory Spec2Isabelle
  imports Main
begin

section \<open>Strings\<close>

text \<open>
  A transcript is a \<^typ>\<open>string\<close>. The model covers ASCII transcripts: lower-casing
  maps \<open>A\<close>..\<open>Z\<close> to \<open>a\<close>..\<open>z\<close> and leaves every other character alone, and the white
  space of the regular expression \<^verbatim>\<open>\s\<close> and of \<^verbatim>\<open>trim\<close> is tab, line feed, vertical
  tab, form feed, carriage return and space.
\<close>

definition code :: "char \<Rightarrow> nat" where
  "code c = of_char c"

definition toLowerC :: "char \<Rightarrow> char" where
  "toLowerC c = (if 65 \<le> code c \<and> code c \<le> 90 then char_of (code c + 32) else c)"

definition toLowerCase :: "string \<Rightarrow> string" where
  "toLowerCase s = map toLowerC s"

definition isSpace :: "char \<Rightarrow> bool" where
  "isSpace c = (9 \<le> code c \<and> code c \<le> 13 \<or> code c = 32)"

definition isLowerAlnum :: "char \<Rightarrow> bool" where
  \<comment> \<open>the character class \<^verbatim>\<open>[a-z0-9]\<close>\<close>
  "isLowerAlnum c = (97 \<le> code c \<and> code c \<le> 122 \<or> 48 \<le> code c \<and> code c \<le> 57)"

definition trim :: "string \<Rightarrow> string" where
  "trim s = rev (dropWhile isSpace (rev (dropWhile isSpace s)))"

definition startsWith :: "string \<Rightarrow> string \<Rightarrow> bool" where
  "startsWith s w = (take (length w) s = w)"

text \<open>\<^verbatim>\<open>s.includes(w)\<close>: \<open>w\<close> occurs in \<open>s\<close> as a contiguous substring.\<close>

fun includes_str :: "string \<Rightarrow> string \<Rightarrow> bool" where
  "includes_str [] w = (w = [])"
| "includes_str (c # cs) w = (startsWith (c # cs) w \<or> includes_str cs w)"

text \<open>\<^verbatim>\<open>s.replace(/\s+/g, " ")\<close>: every maximal run of white space becomes one space.\<close>

function collapse_ws :: "string \<Rightarrow> string" where
  "collapse_ws [] = []"
| "collapse_ws (c # cs) =
     (if isSpace c then CHR '' '' # collapse_ws (dropWhile isSpace cs)
      else c # collapse_ws cs)"
  by pat_completeness auto
termination
  by (relation "measure length") (auto simp: length_dropWhile_le less_Suc_eq_le)

text \<open>\<^verbatim>\<open>s.split(d)\<close> for a one-character separator; the result is never empty.\<close>

fun splitOn :: "char \<Rightarrow> string \<Rightarrow> string list" where
  "splitOn d [] = [[]]"
| "splitOn d (c # cs) =
     (if c = d then [] # splitOn d cs
      else (case splitOn d cs of [] \<Rightarrow> [[c]] | w # ws \<Rightarrow> (c # w) # ws))"

text \<open>\<^verbatim>\<open>xs[i]\<close>, which is \<^verbatim>\<open>undefined\<close> out of range.\<close>

definition at :: "'a list \<Rightarrow> nat \<Rightarrow> 'a option" where
  "at xs i = (if i < length xs then Some (xs ! i) else None)"

text \<open>\<^verbatim>\<open>xs.findIndex(p)\<close>, with \<open>None\<close> for \<open>-1\<close>.\<close>

fun findIndex :: "('a \<Rightarrow> bool) \<Rightarrow> 'a list \<Rightarrow> nat option" where
  "findIndex p [] = None"
| "findIndex p (x # xs) =
     (if p x then Some 0 else map_option Suc (findIndex p xs))"

section \<open>The interpreter of spoken moves (src/voice/sanFromSpeech.js)\<close>

definition numberWords :: "(string \<times> string) list" where
  "numberWords =
     [(''one'', ''1''), (''two'', ''2''), (''three'', ''3''), (''four'', ''4''),
      (''five'', ''5''), (''six'', ''6''), (''seven'', ''7''), (''eight'', ''8'')]"

definition pieceWords :: "(string \<times> string) list" where
  "pieceWords =
     [(''knight'', ''N''), (''bishop'', ''B''), (''rook'', ''R''), (''queen'', ''Q''),
      (''king'', ''K'')]"

definition promoWords :: "(string \<times> string) list" where
  "promoWords =
     [(''queen'', ''Q''), (''rook'', ''R''), (''bishop'', ''B''), (''knight'', ''N'')]"

definition normToken :: "string \<Rightarrow> string" where
  "normToken t =
     (let s = trim (toLowerCase t);
          s = filter isLowerAlnum s
      in case map_of numberWords s of Some d \<Rightarrow> d | None \<Rightarrow> s)"

definition isFile :: "string \<Rightarrow> bool" where
  "isFile t = (case t of [c] \<Rightarrow> 97 \<le> code c \<and> code c \<le> 104 | _ \<Rightarrow> False)"

definition isRank :: "string \<Rightarrow> bool" where
  "isRank t = (case t of [c] \<Rightarrow> 49 \<le> code c \<and> code c \<le> 56 | _ \<Rightarrow> False)"

text \<open>The two tests on a token that may be \<^verbatim>\<open>undefined\<close> (a read past the end).\<close>

definition isFileAt :: "string option \<Rightarrow> bool" where
  "isFileAt t = (case t of None \<Rightarrow> False | Some u \<Rightarrow> isFile u)"

definition isRankAt :: "string option \<Rightarrow> bool" where
  "isRankAt t = (case t of None \<Rightarrow> False | Some u \<Rightarrow> isRank u)"

definition toSquare :: "string \<Rightarrow> string \<Rightarrow> string" where
  "toSquare file rank = (if \<not> isFile file \<or> \<not> isRank rank then [] else file @ rank)"

definition cleaned_of :: "string \<Rightarrow> string" where
  \<comment> \<open>lines 46-50\<close>
  "cleaned_of raw =
     trim (collapse_ws (map (\<lambda>c. if c = CHR ''-'' then CHR '' '' else c) (toLowerCase raw)))"

definition castling :: "string \<Rightarrow> string option" where
  \<comment> \<open>lines 53-62\<close>
  "castling cleaned =
     (if includes_str cleaned ''castle'' \<and>
         (includes_str cleaned ''king side'' \<or> includes_str cleaned ''kingside'' \<or>
          includes_str cleaned ''short'')
      then Some ''O-O''
      else if includes_str cleaned ''castle'' \<and>
         (includes_str cleaned ''queen side'' \<or> includes_str cleaned ''queenside'' \<or>
          includes_str cleaned ''long'')
      then Some ''O-O-O''
      else if cleaned = ''o o'' \<or> cleaned = ''oo'' \<or> cleaned = ''o-o'' then Some ''O-O''
      else if cleaned = ''o o o'' \<or> cleaned = ''ooo'' \<or> cleaned = ''o-o-o''
      then Some ''O-O-O''
      else None)"

definition tokens_of :: "string \<Rightarrow> string list" where
  \<comment> \<open>line 64\<close>
  "tokens_of cleaned = filter (\<lambda>t. t \<noteq> []) (map normToken (splitOn CHR '' '' cleaned))"

definition hasMate :: "string list \<Rightarrow> bool" where
  "hasMate tokens = (''checkmate'' \<in> set tokens \<or> ''mate'' \<in> set tokens)"

definition hasCheck :: "string list \<Rightarrow> bool" where
  "hasCheck tokens = (''check'' \<in> set tokens \<or> hasMate tokens)"

definition isPromoteWord :: "string \<Rightarrow> bool" where
  "isPromoteWord t = (t = ''promote'' \<or> t = ''promotion'' \<or> t = ''promotes'')"

definition promo_window :: "string list \<Rightarrow> nat \<Rightarrow> string \<Rightarrow> string" where
  \<comment> \<open>the inner loop, lines 73-76\<close>
  "promo_window tokens i promo =
     fold (\<lambda>j p. case map_of promoWords (tokens ! j) of
                    Some l \<Rightarrow> CHR ''='' # l | None \<Rightarrow> p)
          [i ..< min (i + 4) (length tokens)] promo"

definition promo_scan :: "string list \<Rightarrow> string" where
  \<comment> \<open>the outer loop, lines 70-78\<close>
  "promo_scan tokens =
     fold (\<lambda>i p. if isPromoteWord (tokens ! i) then promo_window tokens i p else p)
          [0 ..< length tokens] []"

definition isCaptureWord :: "string \<Rightarrow> bool" where
  "isCaptureWord t = (t = ''takes'' \<or> t = ''capture'' \<or> t = ''captures'' \<or> t = ''x'')"

definition check_suffix :: "string list \<Rightarrow> string" where
  \<comment> \<open>\<^verbatim>\<open>if (hasMate) san += "#"; else if (hasCheck) san += "+";\<close>\<close>
  "check_suffix tokens =
     (if hasMate tokens then ''#'' else if hasCheck tokens then ''+'' else [])"

definition dest_scan :: "string list \<Rightarrow> string" where
  \<comment> \<open>lines 120-123\<close>
  "dest_scan tokens =
     fold (\<lambda>i dest. if isFile (tokens ! i) \<and> isRank (tokens ! (i + 1))
                     then toSquare (tokens ! i) (tokens ! (i + 1)) else dest)
          [0 ..< length tokens - 1] []"

definition isPawnPush :: "string list \<Rightarrow> bool" where
  \<comment> \<open>the condition of line 84\<close>
  "isPawnPush tokens =
     (length tokens \<ge> 2 \<and> isFile (tokens ! 0) \<and> isRank (tokens ! 1))"

definition pawnPush :: "string list \<Rightarrow> string" where
  \<comment> \<open>lines 85-94\<close>
  "pawnPush tokens =
     (let san = toSquare (tokens ! 0) (tokens ! 1);
          promo = promo_scan tokens;
          promo = (if promo = [] \<and> length tokens \<ge> 3
                   then (case map_of promoWords (tokens ! 2) of
                           Some l \<Rightarrow> CHR ''='' # l | None \<Rightarrow> promo)
                   else promo)
      in san @ promo @ check_suffix tokens)"

definition isPawnCapture :: "string list \<Rightarrow> bool" where
  \<comment> \<open>the condition of lines 98-104, and line 107\<close>
  "isPawnCapture tokens =
     (case findIndex isCaptureWord tokens of
        None \<Rightarrow> False
      | Some takesIdx \<Rightarrow>
          length tokens \<ge> 4 \<and> isFile (tokens ! 0) \<and>
          isFileAt (at tokens (takesIdx + 1)) \<and> isRankAt (at tokens (takesIdx + 2)) \<and>
          toSquare (tokens ! (takesIdx + 1)) (tokens ! (takesIdx + 2)) \<noteq> [])"

definition pawnCapture :: "string list \<Rightarrow> string" where
  \<comment> \<open>lines 105-111\<close>
  "pawnCapture tokens =
     (let takesIdx = the (findIndex isCaptureWord tokens);
          fromFile = tokens ! 0;
          sq = toSquare (tokens ! (takesIdx + 1)) (tokens ! (takesIdx + 2))
      in fromFile @ ''x'' @ sq @ promo_scan tokens @ check_suffix tokens)"

definition isPieceWord :: "string \<Rightarrow> bool" where
  "isPieceWord t = (map_of pieceWords t \<noteq> None)"

definition pieceMove :: "string list \<Rightarrow> nat \<Rightarrow> string" where
  \<comment> \<open>lines 118-129\<close>
  "pieceMove tokens pieceIdx =
     (let P = the (map_of pieceWords (tokens ! pieceIdx));
          dest = dest_scan tokens
      in if dest = [] then []
         else P @ (if findIndex isCaptureWord tokens \<noteq> None then ''x'' else []) @ dest @
              promo_scan tokens @ check_suffix tokens)"

definition isFallbackChar :: "char \<Rightarrow> bool" where
  \<comment> \<open>the class \<^verbatim>\<open>[a-z0-9x\+\#\=\-o]\<close> under the flag \<^verbatim>\<open>i\<close>\<close>
  "isFallbackChar c =
     (97 \<le> code c \<and> code c \<le> 122 \<or> 65 \<le> code c \<and> code c \<le> 90 \<or>
      48 \<le> code c \<and> code c \<le> 57 \<or>
      c = CHR ''+'' \<or> c = CHR ''#'' \<or> c = CHR ''='' \<or> c = CHR ''-'')"

definition fallback :: "string \<Rightarrow> string" where
  \<comment> \<open>line 133\<close>
  "fallback cleaned = filter isFallbackChar (filter (\<lambda>c. \<not> isSpace c) cleaned)"

definition sanFromSpeech :: "string \<Rightarrow> string" where
  "sanFromSpeech raw =
     (if raw = [] then []
      else
        let cleaned = cleaned_of raw in
        case castling cleaned of
          Some san \<Rightarrow> san
        | None \<Rightarrow>
            let tokens = tokens_of cleaned in
            if isPawnPush tokens then pawnPush tokens
            else if isPawnCapture tokens then pawnCapture tokens
            else (case findIndex isPieceWord tokens of
                    Some pieceIdx \<Rightarrow> pieceMove tokens pieceIdx
                  | None \<Rightarrow> fallback cleaned))"

section \<open>The confirmation classifier (src/App.jsx, lines 37-48)\<close>

datatype verdict = CONFIRM | CANCEL | REPEAT | UNKNOWN

definition yes_words :: "string list" where
  "yes_words =
     [''confirm'', ''yes'', ''yeah'', ''yep'', ''ok'', ''okay'', ''go'', ''do it'', ''accept'']"

definition no_words :: "string list" where
  "no_words = [''cancel'', ''no'', ''nope'', ''stop'', ''reject'', ''discard'']"

definition rep_words :: "string list" where
  "rep_words = [''repeat'', ''say again'', ''again'', ''what'', ''pardon'']"

definition interpretConfirmCommand :: "string \<Rightarrow> verdict" where
  "interpretConfirmCommand raw =
     (let t = toLowerCase raw in
      if list_ex (\<lambda>w. includes_str t w) yes_words then CONFIRM
      else if list_ex (\<lambda>w. includes_str t w) no_words then CANCEL
      else if list_ex (\<lambda>w. includes_str t w) rep_words then REPEAT
      else UNKNOWN)"

section \<open>The dialogue controller (src/App.jsx, component App)\<close>

text \<open>
  The component's state variables and refs form a record, and a setter call is a record
  update. The functions declared in the component body belong to one render and close
  over the values that \<open>busy\<close> and \<open>pendingSan\<close> had at that render: a \<open>render\<close>
  holds these two values, and every function that reads one of them takes the render it
  belongs to. A click runs the functions of the latest render, a recognizer's callback
  those of the render whose function created it, and the engine's message handler those
  of the first render, in which the effect of lines 63-123 installed it.

  The calls to the collaborators are logged: \<open>spoken\<close> holds the texts passed to
  \<^verbatim>\<open>speak\<close>, \<open>engine_msgs\<close> the messages posted to the engine worker, and \<open>started\<close>
  counts the calls of \<^verbatim>\<open>r.start()\<close>.

  \<open>recogs\<close> lists every recognizer created, in order; the last one is
  \<^verbatim>\<open>recogRef.current\<close>. A recognizer keeps its handlers for good. It delivers one
  transcript or one error (\<open>finished\<close> records that it has), and \<^verbatim>\<open>stop()\<close> does not
  take the delivery away: a stopped recognizer still returns what it heard.
\<close>

datatype mode = Mode_MOVE | Mode_CONFIRM

record render =
  r_busy :: bool
  r_pendingSan :: string

datatype callback = MoveCallback | ConfirmCallback

record recognizer =
  onResult :: callback
  closure :: render
  stopped :: bool
  finished :: bool

record uci_move =
  from_sq :: string
  to_sq :: string
  promotion :: "string option"

text \<open>
  The chess.js object, over any type \<open>'g\<close> of games: \<^verbatim>\<open>move\<close> yields the new game and
  the SAN of the move made, or \<open>None\<close> where chess.js yields \<^verbatim>\<open>null\<close>.
\<close>

record 'g chess_js =
  new_chess :: 'g
  move_san :: "'g \<Rightarrow> string \<Rightarrow> ('g \<times> string) option"
  move_obj :: "'g \<Rightarrow> uci_move \<Rightarrow> ('g \<times> string) option"
  isCheckmate :: "'g \<Rightarrow> bool"
  isDraw :: "'g \<Rightarrow> bool"
  fen :: "'g \<Rightarrow> string"

record 'g env =
  speechSupported :: bool  \<comment> \<open>whether \<^verbatim>\<open>SpeechRecognition\<close> is defined\<close>
  chessApi :: "'g chess_js"

record 'g app =
  chess :: 'g
  moves :: "string list"
  status :: string
  busy :: bool
  listening :: bool
  mode :: mode
  pendingSan :: string
  recogs :: "recognizer list"
  started :: nat
  spoken :: "string list"
  engine_msgs :: "string list"

text \<open>The render that shows a state, and the first render.\<close>

definition render_of :: "'g app \<Rightarrow> render" where
  "render_of s = \<lparr>r_busy = busy s, r_pendingSan = pendingSan s\<rparr>"

definition firstRender :: render where
  "firstRender = \<lparr>r_busy = False, r_pendingSan = []\<rparr>"

definition speak :: "string \<Rightarrow> 'g app \<Rightarrow> 'g app" where
  "speak text s = s\<lparr>spoken := spoken s @ [text]\<rparr>"

definition setStatus :: "string \<Rightarrow> 'g app \<Rightarrow> 'g app" where
  "setStatus text s = s\<lparr>status := text\<rparr>"

definition postMessage :: "'g env \<Rightarrow> string \<Rightarrow> 'g app \<Rightarrow> 'g app" where
  \<comment> \<open>\<^verbatim>\<open>engineRef.current?.postMessage\<close>: the worker exists when speech is supported\<close>
  "postMessage E msg s =
     (if speechSupported E then s\<lparr>engine_msgs := engine_msgs s @ [msg]\<rparr> else s)"

definition uciToMove :: "string \<Rightarrow> uci_move option" where
  "uciToMove uci =
     (if uci = [] \<or> uci = ''(none)'' then None
      else Some \<lparr>from_sq = take 2 uci, to_sq = take 2 (drop 2 uci),
                 promotion = (if length uci \<ge> 5 then Some [uci ! 4] else None)\<rparr>)"

text \<open>\<^verbatim>\<open>recogRef.current?.stop()\<close>: the current recognizer is told to stop.\<close>

definition stopCurrent :: "recognizer list \<Rightarrow> recognizer list" where
  "stopCurrent rs = (if rs = [] then [] else butlast rs @ [(last rs)\<lparr>stopped := True\<rparr>])"

definition stopListening :: "'g app \<Rightarrow> 'g app" where
  "stopListening s = s\<lparr>recogs := stopCurrent (recogs s), listening := False\<rparr>"

definition startListeningInternal :: "'g env \<Rightarrow> callback \<Rightarrow> render \<Rightarrow> 'g app \<Rightarrow> 'g app" where
  \<comment> \<open>\<open>R\<close> is the render of the function that passes the callback\<close>
  "startListeningInternal E cb R s =
     (if \<not> speechSupported E then s
      else (let s = stopListening s in
            s\<lparr>recogs := recogs s @
                   [\<lparr>onResult = cb, closure = R, stopped = False, finished = False\<rparr>],
              started := started s + 1\<rparr>))"

definition requestEngineMove :: "'g env \<Rightarrow> 'g app \<Rightarrow> 'g app" where
  "requestEngineMove E s =
     (let s = setStatus ''Engine thinking...'' (s\<lparr>busy := True\<rparr>);
          f = fen (chessApi E) (chess s)
      in postMessage E ''go depth 8'' (postMessage E (''position fen '' @ f) s))"

definition startListeningForMove :: "'g env \<Rightarrow> render \<Rightarrow> 'g app \<Rightarrow> 'g app" where
  "startListeningForMove E R s =
     (if r_busy R then s
      else startListeningInternal E MoveCallback R
             (setStatus ''Listening... Say your move.''
                (s\<lparr>mode := Mode_MOVE, pendingSan := []\<rparr>)))"

definition startListeningForConfirm :: "'g env \<Rightarrow> render \<Rightarrow> 'g app \<Rightarrow> 'g app" where
  "startListeningForConfirm E R s =
     (if r_busy R then s
      else startListeningInternal E ConfirmCallback R
             (setStatus (''Confirm: '' @ r_pendingSan R @ ''. Say confirm or cancel.'') s))"

definition applyPlayerSan :: "'g env \<Rightarrow> render \<Rightarrow> string \<Rightarrow> 'g app \<Rightarrow> 'g app" where
  "applyPlayerSan E R san s =
     (if r_busy R then s
      else case move_san (chessApi E) (chess s) san of
        None \<Rightarrow>
          startListeningForMove E R
            (speak ''Illegal move. Please try again.''
               (setStatus ''Illegal move. Say a SAN move like: e4, Nf3, O-O.''
                  (s\<lparr>mode := Mode_MOVE, pendingSan := []\<rparr>)))
      | Some (g, m_san) \<Rightarrow>
          let s = s\<lparr>chess := g, moves := moves s @ [m_san]\<rparr> in
          if isCheckmate (chessApi E) g then speak ''Checkmate.'' (setStatus ''Checkmate.'' s)
          else if isDraw (chessApi E) g then speak ''Draw.'' (setStatus ''Draw.'' s)
          else requestEngineMove E
                 (speak (''You played: '' @ m_san @ ''.'')
                    (setStatus (''You played: '' @ m_san @ ''. Engine thinking...'')
                       (s\<lparr>mode := Mode_MOVE, pendingSan := []\<rparr>))))"

text \<open>
  The callback that \<^verbatim>\<open>startListeningForMove\<close> passes on (lines 218-233). The arrow of
  the status text is written \<open>->\<close>.
\<close>

definition onMoveResult :: "'g env \<Rightarrow> render \<Rightarrow> string \<Rightarrow> 'g app \<Rightarrow> 'g app" where
  "onMoveResult E R raw s =
     (let san = sanFromSpeech raw in
      if san = [] then
        startListeningForMove E R
          (speak ''I did not catch that. Please repeat.''
             (setStatus (''Heard: '' @ [CHR 0x22] @ raw @ [CHR 0x22] @ '' -> (empty). Try again.'') s))
      else
        startListeningForConfirm E R
          (speak (''I heard '' @ san @ ''. Confirm or cancel.'')
             (setStatus (''Heard: '' @ [CHR 0x22] @ raw @ [CHR 0x22] @ '' -> '' @ san @
                         ''. Say confirm or cancel.'')
                (s\<lparr>mode := Mode_CONFIRM, pendingSan := san\<rparr>))))"

text \<open>
  The callback that \<^verbatim>\<open>startListeningForConfirm\<close> passes on (lines 240-277). Its
  \<^verbatim>\<open>pendingSan\<close> is the one of its render.
\<close>

definition onConfirmResult :: "'g env \<Rightarrow> render \<Rightarrow> string \<Rightarrow> 'g app \<Rightarrow> 'g app" where
  "onConfirmResult E R raw s =
     (case interpretConfirmCommand raw of
        CONFIRM \<Rightarrow> applyPlayerSan E R (r_pendingSan R) (stopListening s)
      | CANCEL \<Rightarrow>
          startListeningForMove E R
            (speak ''Canceled. Say your move.''
               (setStatus ''Canceled. Say your move.''
                  ((stopListening s)\<lparr>mode := Mode_MOVE, pendingSan := []\<rparr>)))
      | REPEAT \<Rightarrow>
          startListeningForConfirm E R
            (speak (''I heard '' @ r_pendingSan R @ ''. Confirm or cancel.'') s)
      | UNKNOWN \<Rightarrow>
          let maybeSan = sanFromSpeech raw in
          if maybeSan \<noteq> [] then
            startListeningForConfirm E R
              (speak (''I heard '' @ maybeSan @ ''. Confirm or cancel.'')
                 (setStatus (''Heard a new move: '' @ maybeSan @ ''. Say confirm or cancel.'')
                    (s\<lparr>pendingSan := maybeSan\<rparr>)))
          else startListeningForConfirm E R (speak ''Please say confirm or cancel.'' s))"

definition onError :: "'g app \<Rightarrow> 'g app" where
  \<comment> \<open>\<^verbatim>\<open>r.onerror\<close>, lines 151-157\<close>
  "onError s =
     (speak ''Speech error. Please click Start.''
        (setStatus ''Speech error. Click Start.'' (s\<lparr>listening := False\<rparr>)))
     \<lparr>mode := Mode_MOVE, pendingSan := []\<rparr>"

definition newGame :: "'g env \<Rightarrow> render \<Rightarrow> 'g app \<Rightarrow> 'g app" where
  "newGame E R s =
     startListeningForMove E R
       (speak ''New game. Your move.''
          (setStatus ''New game. Say your move.''
             ((stopListening s)\<lparr>chess := new_chess (chessApi E), moves := [], busy := False,
                                mode := Mode_MOVE, pendingSan := []\<rparr>)))"

definition onEngineMessage :: "'g env \<Rightarrow> string \<Rightarrow> 'g app \<Rightarrow> 'g app" where
  \<comment> \<open>\<^verbatim>\<open>w.onmessage\<close>, lines 73-115, a function of the first render\<close>
  "onEngineMessage E line s =
     (if line = [] then s
      else if includes_str line ''uciok'' then s
      else if startsWith line ''bestmove'' then
        let parts = splitOn CHR '' '' (collapse_ws (trim line));
            uci = (case at parts 1 of None \<Rightarrow> ''(none)''
                   | Some u \<Rightarrow> if u = [] then ''(none)'' else u)
        in case uciToMove uci of
             None \<Rightarrow>
               startListeningForMove E firstRender
                 (speak ''I have no moves.'' (setStatus ''Engine has no moves.'' (s\<lparr>busy := False\<rparr>)))
           | Some moveObj \<Rightarrow>
               let s = (case move_obj (chessApi E) (chess s) moveObj of
                          None \<Rightarrow> s
                        | Some (g, m_san) \<Rightarrow>
                            speak (''My move: '' @ m_san @ ''. Your move.'')
                              (setStatus (''My move: '' @ m_san @ ''. Your move.'')
                                 (s\<lparr>chess := g, moves := moves s @ [m_san]\<rparr>)));
                   s = s\<lparr>busy := False\<rparr>
               in if isCheckmate (chessApi E) (chess s)
                  then speak ''Checkmate.'' (setStatus ''Checkmate.'' s)
                  else if isDraw (chessApi E) (chess s)
                  then speak ''Draw.'' (setStatus ''Draw.'' s)
                  else startListeningForMove E firstRender s
      else s)"

text \<open>The state after mounting (lines 51-61 and the effect of lines 63-123).\<close>

definition init :: "'g env \<Rightarrow> 'g app" where
  "init E =
     (let s = \<lparr>chess = new_chess (chessApi E), moves = [], status = ''Say your move (SAN).'',
               busy = False, listening = False, mode = Mode_MOVE, pendingSan = [],
               recogs = [], started = 0, spoken = [], engine_msgs = []\<rparr>
      in if \<not> speechSupported E
         then setStatus ''SpeechRecognition is not supported in this browser.'' s
         else postMessage E ''isready'' (postMessage E ''uci'' s))"

text \<open>
  What can happen to the mounted component: recognizer number \<open>i\<close> delivers its
  transcript or its error, a recognizer reports its start or its end, the engine worker
  sends a line, or one of the three buttons is clicked. A recognizer that has delivered
  delivers no more, a button that is disabled takes no click, and there is no worker where
  speech is not supported.
\<close>

datatype event =
    Transcript nat string
  | SpeechError nat
  | RecogStart
  | RecogEnd
  | EngineLine string
  | ClickNewGame
  | ClickStart
  | ClickStop

definition canDeliver :: "'g app \<Rightarrow> nat \<Rightarrow> bool" where
  "canDeliver s i = (i < length (recogs s) \<and> \<not> finished (recogs s ! i))"

definition markFinished :: "nat \<Rightarrow> 'g app \<Rightarrow> 'g app" where
  "markFinished i s = s\<lparr>recogs := (recogs s)[i := (recogs s ! i)\<lparr>finished := True\<rparr>]\<rparr>"

definition deliver :: "'g env \<Rightarrow> event \<Rightarrow> 'g app \<Rightarrow> 'g app" where
  "deliver E ev s =
     (case ev of
        Transcript i raw \<Rightarrow>
          (if \<not> canDeliver s i then s
           else case onResult (recogs s ! i) of
                  MoveCallback \<Rightarrow> onMoveResult E (closure (recogs s ! i)) raw (markFinished i s)
                | ConfirmCallback \<Rightarrow>
                    onConfirmResult E (closure (recogs s ! i)) raw (markFinished i s))
      | SpeechError i \<Rightarrow> (if \<not> canDeliver s i then s else onError (markFinished i s))
      | RecogStart \<Rightarrow> (if recogs s = [] then s else s\<lparr>listening := True\<rparr>)
      | RecogEnd \<Rightarrow> s\<lparr>listening := False\<rparr>
      | EngineLine line \<Rightarrow> (if speechSupported E then onEngineMessage E line s else s)
      | ClickNewGame \<Rightarrow> (if busy s then s else newGame E (render_of s) s)
      | ClickStart \<Rightarrow>
          (if busy s \<or> listening s then s else startListeningForMove E (render_of s) s)
      | ClickStop \<Rightarrow> (if \<not> listening s then s else stopListening s))"

definition run :: "'g env \<Rightarrow> event list \<Rightarrow> 'g app" where
  "run E evs = fold (deliver E) evs (init E)"

section \<open>Notions used to state the properties\<close>

text \<open>A lower-cased transcript contains a word of the list.\<close>

definition hits :: "string list \<Rightarrow> string \<Rightarrow> bool" where
  "hits ws raw = (\<exists>w \<in> set ws. includes_str (toLowerCase raw) w)"

text \<open>
  A small stand-in for chess.js, used for concrete runs: a game is the list of the moves
  made, the player may play \<open>e4\<close> and \<open>Qxf7#\<close>, the engine's moves are all taken, and
  the game is over by checkmate once \<open>Qxf7#\<close> has been played.
\<close>

definition toy_chess :: "string list chess_js" where
  "toy_chess =
     \<lparr>new_chess = [],
      move_san = (\<lambda>g san. if san = ''e4'' \<or> san = ''Qxf7#'' then Some (g @ [san], san) else None),
      move_obj = (\<lambda>g m. Some (g @ [from_sq m @ to_sq m], from_sq m @ to_sq m)),
      isCheckmate = (\<lambda>g. ''Qxf7#'' \<in> set g),
      isDraw = (\<lambda>g. False),
      fen = (\<lambda>g. ''fen'')\<rparr>"

definition toy_env :: "string list env" where
  "toy_env = \<lparr>speechSupported = True, chessApi = toy_chess\<rparr>"


text \<open>
  Two runs in which the player says a move and then \<open>yes\<close>. In the first the move is
  heard right after a click on Start. In the second the player stops the confirmation,
  clicks Start again while \<open>Qxf7#\<close> is pending, and says the move once more.
\<close>

definition plain_heard :: "event list" where
  "plain_heard = [ClickStart, Transcript 0 ''e four'']"

definition mate_heard :: "event list" where
  "mate_heard =
     [ClickStart, Transcript 0 ''queen takes f seven mate'', RecogStart, ClickStop,
      ClickStart, Transcript 2 ''queen takes f seven mate'']"

text \<open>The half of the dialogue invariant that every handler preserves.\<close>

definition confirm_inv :: "'g app \<Rightarrow> bool" where
  "confirm_inv s = (mode s = Mode_CONFIRM \<longrightarrow> pendingSan s \<noteq> [])"

text \<open>
  An adjacent (file, rank) pair of tokens at index \<open>i\<close>, and the last such pair of a
  token sequence.
\<close>

definition filePairAt :: "string list \<Rightarrow> nat \<Rightarrow> bool" where
  "filePairAt tokens i =
     (i + 1 < length tokens \<and> isFile (tokens ! i) \<and> isRank (tokens ! (i + 1)))"

definition lastFilePair :: "string list \<Rightarrow> nat \<Rightarrow> bool" where
  "lastFilePair tokens i =
     (filePairAt tokens i \<and> (\<forall>j \<in> set [i + 1 ..< length tokens]. \<not> filePairAt tokens j))"



text \<open>
  The phrase normalizer: the cleaning of lines 46-50 followed by the tokenizing of line 64.
  \<open>join_sp\<close> puts a token sequence back into one string, with single spaces between
  the tokens, and \<open>isToken\<close> is what every token of the normalizer satisfies.
\<close>

definition normalize :: "string \<Rightarrow> string list" where
  "normalize raw = tokens_of (cleaned_of raw)"

fun join_sp :: "string list \<Rightarrow> string" where
  "join_sp [] = []"
| "join_sp [t] = t"
| "join_sp (t # u # ts) = t @ CHR '' '' # join_sp (u # ts)"

definition isToken :: "string \<Rightarrow> bool" where
  "isToken t = (t \<noteq> [] \<and> (\<forall>c \<in> set t. isLowerAlnum c) \<and> map_of numberWords t = None)"

text \<open>
  The syntax of a SAN token, read from the end of the string: an optional \<open>+\<close> or
  \<open>#\<close>; before it either a castling, or a pawn move (a square, or a file, \<open>x\<close> and a
  square, with an optional promotion \<open>=Q\<close>, \<open>=R\<close>, \<open>=B\<close> or \<open>=N\<close>), or a piece move
  (a piece letter, an optional file and an optional rank of origin, an optional \<open>x\<close>, a
  square). \<open>piece_promo_syntax\<close> is a piece move that carries a promotion, which SAN
  does not have.
\<close>

definition isFileC :: "char \<Rightarrow> bool" where
  "isFileC c = (97 \<le> code c \<and> code c \<le> 104)"

definition isRankC :: "char \<Rightarrow> bool" where
  "isRankC c = (49 \<le> code c \<and> code c \<le> 56)"









section \<open>Properties of the confirmation classifier\<close>

lemma startsWith_map: "startsWith s w \<Longrightarrow> startsWith (map f s) (map f w)"
  unfolding startsWith_def by (metis length_map take_map)

lemma includes_str_map: "includes_str s w \<Longrightarrow> includes_str (map f s) (map f w)"
proof (induction s)
  case Nil
  then show ?case by simp
next
  case (Cons c cs)
  from Cons.prems have "startsWith (c # cs) w \<or> includes_str cs w" by simp
  then show ?case
  proof
    assume "startsWith (c # cs) w"
    then have "startsWith (map f (c # cs)) (map f w)" by (rule startsWith_map)
    then show ?thesis by simp
  next
    assume "includes_str cs w"
    then have "includes_str (map f cs) (map f w)" by (rule Cons.IH)
    then show ?thesis by simp
  qed
qed

lemma toLowerCase_words:
  "w \<in> set yes_words \<union> set no_words \<union> set rep_words \<Longrightarrow> toLowerCase w = w"
  unfolding yes_words_def no_words_def rep_words_def toLowerCase_def toLowerC_def code_def
  by auto

lemma includes_lower:
  assumes "w \<in> set yes_words \<union> set no_words \<union> set rep_words" and "includes_str raw w"
  shows "includes_str (toLowerCase raw) w"
proof -
  have "includes_str (map toLowerC raw) (map toLowerC w)"
    using assms(2) by (rule includes_str_map)
  then show ?thesis using toLowerCase_words [OF assms(1)] by (simp add: toLowerCase_def)
qed

text \<open>
  Claim C5. The classifier lower-cases the transcript and tests it against the CONFIRM
  words, then the CANCEL words, then the REPEAT words; the first list with a word that
  occurs in it gives the verdict, and UNKNOWN is the verdict when none has one. So a
  transcript that contains a CONFIRM word and a CANCEL word, lower-cased or as it was
  heard, is classified CONFIRM.
\<close>

theorem classify_order:
  "interpretConfirmCommand raw =
     (if hits yes_words raw then CONFIRM
      else if hits no_words raw then CANCEL
      else if hits rep_words raw then REPEAT
      else UNKNOWN)
   \<and> (hits yes_words raw \<and> hits no_words raw \<longrightarrow> interpretConfirmCommand raw = CONFIRM)
   \<and> ((\<exists>w \<in> set yes_words. includes_str raw w) \<and> (\<exists>w \<in> set no_words. includes_str raw w)
        \<longrightarrow> interpretConfirmCommand raw = CONFIRM)"
proof -
  have eq: "interpretConfirmCommand raw =
     (if hits yes_words raw then CONFIRM
      else if hits no_words raw then CANCEL
      else if hits rep_words raw then REPEAT
      else UNKNOWN)"
    by (simp add: interpretConfirmCommand_def hits_def list_ex_iff)
  have "hits yes_words raw" if "\<exists>w \<in> set yes_words. includes_str raw w"
    using that includes_lower unfolding hits_def by blast
  with eq show ?thesis by simp
qed

theorem classify_order_witness:
  "hits yes_words ''Yes, no'' \<and> hits no_words ''Yes, no'' \<and>
   interpretConfirmCommand ''Yes, no'' = CONFIRM"
proof -
  have a: "hits yes_words ''Yes, no''" unfolding hits_def by code_simp
  have b: "hits no_words ''Yes, no''" unfolding hits_def by code_simp
  from a b classify_order [of "''Yes, no''"] show ?thesis by blast
qed

text \<open>
  Claim C10. The CONFIRM words are matched as bare substrings: a transcript whose
  lower-cased form contains \<open>go\<close> or \<open>ok\<close> anywhere, as \<open>going\<close> and \<open>broken\<close> do, is
  classified CONFIRM, and so is \<open>no go\<close>, which also contains a CANCEL word.
\<close>

theorem go_ok_confirm:
  "(includes_str (toLowerCase raw) ''go'' \<or> includes_str (toLowerCase raw) ''ok''
      \<longrightarrow> interpretConfirmCommand raw = CONFIRM)
   \<and> interpretConfirmCommand ''going'' = CONFIRM
   \<and> interpretConfirmCommand ''broken'' = CONFIRM
   \<and> interpretConfirmCommand ''no go'' = CONFIRM
   \<and> hits no_words ''no go''"
proof -
  have "hits yes_words raw"
    if "includes_str (toLowerCase raw) ''go'' \<or> includes_str (toLowerCase raw) ''ok''"
    using that unfolding hits_def yes_words_def by auto
  then have 1: "includes_str (toLowerCase raw) ''go'' \<or> includes_str (toLowerCase raw) ''ok''
      \<longrightarrow> interpretConfirmCommand raw = CONFIRM"
    by (simp add: interpretConfirmCommand_def hits_def list_ex_iff)
  have 2: "interpretConfirmCommand ''going'' = CONFIRM" by code_simp
  have 3: "interpretConfirmCommand ''broken'' = CONFIRM" by code_simp
  have 4: "interpretConfirmCommand ''no go'' = CONFIRM" by code_simp
  have 5: "hits no_words ''no go''" unfolding hits_def by code_simp
  from 1 2 3 4 5 show ?thesis by blast
qed

theorem go_ok_confirm_witness:
  "includes_str (toLowerCase ''Let us GO'') ''go'' \<and>
   interpretConfirmCommand ''Let us GO'' = CONFIRM"
proof -
  have a: "includes_str (toLowerCase ''Let us GO'') ''go''" by code_simp
  with go_ok_confirm [of "''Let us GO''"] show ?thesis by blast
qed

section \<open>Properties of the dialogue controller\<close>

lemmas ctl_defs =
  speak_def setStatus_def postMessage_def stopListening_def startListeningInternal_def
  requestEngineMove_def startListeningForMove_def startListeningForConfirm_def

text \<open>
  Every setter site leaves a non-empty pending SAN in mode CONFIRM: the mode becomes
  CONFIRM only together with a non-empty pending SAN, and the pending SAN becomes empty
  only together with the mode MOVE.
\<close>

lemma half_startListeningForMove:
  "confirm_inv s \<Longrightarrow> confirm_inv (startListeningForMove E R s)"
  by (auto simp: confirm_inv_def ctl_defs Let_def)

lemma half_startListeningForConfirm:
  "confirm_inv s \<Longrightarrow> confirm_inv (startListeningForConfirm E R s)"
  by (auto simp: confirm_inv_def ctl_defs Let_def)

lemma half_applyPlayerSan:
  "confirm_inv s \<Longrightarrow> confirm_inv (applyPlayerSan E R san s)"
  by (auto simp: confirm_inv_def applyPlayerSan_def ctl_defs Let_def split: option.splits)

lemma half_onMoveResult:
  "confirm_inv s \<Longrightarrow> confirm_inv (onMoveResult E R raw s)"
  by (auto simp: confirm_inv_def onMoveResult_def ctl_defs Let_def)

lemma half_onConfirmResult:
  assumes "confirm_inv s"
  shows "confirm_inv (onConfirmResult E R raw s)"
proof (cases "interpretConfirmCommand raw")
  case CONFIRM
  have "confirm_inv (stopListening s)"
    using assms by (simp add: confirm_inv_def stopListening_def)
  then have "confirm_inv (applyPlayerSan E R (r_pendingSan R) (stopListening s))"
    by (rule half_applyPlayerSan)
  with CONFIRM show ?thesis by (simp add: onConfirmResult_def)
next
  case CANCEL
  with assms show ?thesis
    by (auto simp: confirm_inv_def onConfirmResult_def ctl_defs Let_def)
next
  case REPEAT
  with assms show ?thesis
    by (auto simp: confirm_inv_def onConfirmResult_def ctl_defs Let_def)
next
  case UNKNOWN
  with assms show ?thesis
    by (auto simp: confirm_inv_def onConfirmResult_def ctl_defs Let_def)
qed

lemma half_onEngineMessage:
  "confirm_inv s \<Longrightarrow> confirm_inv (onEngineMessage E line s)"
  by (auto simp: confirm_inv_def onEngineMessage_def ctl_defs Let_def split: option.splits)

lemma half_deliver:
  assumes "confirm_inv s"
  shows "confirm_inv (deliver E ev s)"
proof (cases ev)
  case (Transcript i raw)
  have m: "confirm_inv (markFinished i s)"
    using assms by (simp add: confirm_inv_def markFinished_def)
  show ?thesis
  proof (cases "onResult (recogs s ! i)")
    case MoveCallback
    with Transcript assms half_onMoveResult [OF m] show ?thesis by (simp add: deliver_def)
  next
    case ConfirmCallback
    with Transcript assms half_onConfirmResult [OF m] show ?thesis by (simp add: deliver_def)
  qed
next
  case (SpeechError i)
  with assms show ?thesis
    by (simp add: deliver_def confirm_inv_def onError_def markFinished_def ctl_defs)
next
  case RecogStart
  with assms show ?thesis by (simp add: deliver_def confirm_inv_def)
next
  case RecogEnd
  with assms show ?thesis by (simp add: deliver_def confirm_inv_def)
next
  case (EngineLine line)
  with assms half_onEngineMessage [of s E line] show ?thesis by (simp add: deliver_def)
next
  case ClickNewGame
  with assms show ?thesis
    by (auto simp: deliver_def confirm_inv_def newGame_def ctl_defs Let_def)
next
  case ClickStart
  with assms half_startListeningForMove [of s E "render_of s"] show ?thesis
    by (simp add: deliver_def)
next
  case ClickStop
  with assms show ?thesis by (simp add: deliver_def confirm_inv_def stopListening_def)
qed

lemma confirm_mode_has_pending:
  "mode (run E evs) = Mode_CONFIRM \<Longrightarrow> pendingSan (run E evs) \<noteq> []"
proof -
  have "confirm_inv (run E evs)"
    unfolding run_def
  proof (induction evs rule: rev_induct)
    case Nil
    show ?case by (simp add: confirm_inv_def init_def ctl_defs Let_def)
  next
    case (snoc ev evs)
    then show ?case by (simp add: half_deliver)
  qed
  then show "mode (run E evs) = Mode_CONFIRM \<Longrightarrow> pendingSan (run E evs) \<noteq> []"
    by (simp add: confirm_inv_def)
qed

lemma length_stopCurrent: "length (stopCurrent rs) = length rs"
  by (cases rs rule: rev_cases) (simp_all add: stopCurrent_def)

lemma run_snoc: "run E (evs @ [ev]) = deliver E ev (run E evs)"
  by (simp add: run_def)

text \<open>
  Claim C1, at a run where the code departs from it. The player clicks Start and says
  \<open>e four\<close>; while the confirmation is listened for, the player clicks New game, which
  stops that recognizer and sets the mode to MOVE with no pending SAN. The stopped
  recognizer then returns what it heard, \<open>d four\<close>, to its confirm callback, which
  sets the pending SAN (line 268) and not the mode: the mode is MOVE and the pending SAN
  is \<open>d4\<close>.
\<close>

theorem late_transcript_breaks_invariant:
  "mode (run toy_env [ClickStart, Transcript 0 ''e four'']) = Mode_CONFIRM \<and>
   pendingSan (run toy_env [ClickStart, Transcript 0 ''e four'']) = ''e4'' \<and>
   mode (run toy_env [ClickStart, Transcript 0 ''e four'', ClickNewGame]) = Mode_MOVE \<and>
   pendingSan (run toy_env [ClickStart, Transcript 0 ''e four'', ClickNewGame]) = [] \<and>
   onResult (recogs (run toy_env [ClickStart, Transcript 0 ''e four'', ClickNewGame]) ! 1) =
     ConfirmCallback \<and>
   canDeliver (run toy_env [ClickStart, Transcript 0 ''e four'', ClickNewGame]) 1 \<and>
   interpretConfirmCommand ''d four'' = UNKNOWN \<and>
   mode (run toy_env [ClickStart, Transcript 0 ''e four'', ClickNewGame,
                      Transcript 1 ''d four'']) = Mode_MOVE \<and>
   pendingSan (run toy_env [ClickStart, Transcript 0 ''e four'', ClickNewGame,
                            Transcript 1 ''d four'']) = ''d4''"
proof -
  let ?R0 = "\<lparr>r_busy = False, r_pendingSan = []\<rparr>"
  let ?s2 = "\<lparr>chess = [], moves = [], status = ''Confirm: . Say confirm or cancel.'',
      busy = False, listening = False, mode = Mode_CONFIRM, pendingSan = ''e4'',
      recogs = [\<lparr>onResult = MoveCallback, closure = ?R0, stopped = True, finished = True\<rparr>,
                \<lparr>onResult = ConfirmCallback, closure = ?R0, stopped = False, finished = False\<rparr>],
      started = 2, spoken = [''I heard e4. Confirm or cancel.''],
      engine_msgs = [''uci'', ''isready'']\<rparr> :: string list app"
  have s2: "run toy_env [ClickStart, Transcript 0 ''e four''] = ?s2" by code_simp
  have s3: "mode (deliver toy_env ClickNewGame ?s2) = Mode_MOVE"
    "pendingSan (deliver toy_env ClickNewGame ?s2) = []"
    "onResult (recogs (deliver toy_env ClickNewGame ?s2) ! 1) = ConfirmCallback"
    "canDeliver (deliver toy_env ClickNewGame ?s2) 1"
    by code_simp+
  have s4: "mode (deliver toy_env (Transcript 1 ''d four'') (deliver toy_env ClickNewGame ?s2))
              = Mode_MOVE"
    "pendingSan (deliver toy_env (Transcript 1 ''d four'') (deliver toy_env ClickNewGame ?s2))
              = ''d4''"
    by code_simp+
  have u: "interpretConfirmCommand ''d four'' = UNKNOWN" by code_simp
  have r3: "run toy_env [ClickStart, Transcript 0 ''e four'', ClickNewGame] =
            deliver toy_env ClickNewGame ?s2"
    using run_snoc [of toy_env "[ClickStart, Transcript 0 ''e four'']" ClickNewGame]
    by (simp only: s2 append.simps)
  have r4: "run toy_env [ClickStart, Transcript 0 ''e four'', ClickNewGame,
                         Transcript 1 ''d four''] =
            deliver toy_env (Transcript 1 ''d four'') (deliver toy_env ClickNewGame ?s2)"
    using run_snoc [of toy_env "[ClickStart, Transcript 0 ''e four'', ClickNewGame]"
        "Transcript 1 ''d four''"]
    by (simp only: r3 append.simps)
  show ?thesis
    unfolding r4 r3 s2 using s3 s4 u by simp
qed


text \<open>
  What \<^verbatim>\<open>applyPlayerSan\<close> does with the answer of chess.js, and which SAN the confirm
  callback hands to it.
\<close>

lemma applyPlayerSan_outcomes:
  assumes "\<not> r_busy R"
  shows "move_san (chessApi E) (chess s) san = None \<Longrightarrow>
           mode (applyPlayerSan E R san s) = Mode_MOVE \<and>
           pendingSan (applyPlayerSan E R san s) = [] \<and>
           spoken (applyPlayerSan E R san s) = spoken s @ [''Illegal move. Please try again.'']"
    and "move_san (chessApi E) (chess s) san = Some (g, m) \<Longrightarrow>
           \<not> isCheckmate (chessApi E) g \<Longrightarrow> \<not> isDraw (chessApi E) g \<Longrightarrow>
           mode (applyPlayerSan E R san s) = Mode_MOVE \<and>
           pendingSan (applyPlayerSan E R san s) = [] \<and>
           moves (applyPlayerSan E R san s) = moves s @ [m] \<and>
           busy (applyPlayerSan E R san s)"
    and "move_san (chessApi E) (chess s) san = Some (g, m) \<Longrightarrow>
           isCheckmate (chessApi E) g \<or> isDraw (chessApi E) g \<Longrightarrow>
           mode (applyPlayerSan E R san s) = mode s \<and>
           pendingSan (applyPlayerSan E R san s) = pendingSan s \<and>
           moves (applyPlayerSan E R san s) = moves s @ [m]"
  using assms by (auto simp: applyPlayerSan_def ctl_defs Let_def)

lemma confirm_hands_closure_san:
  "interpretConfirmCommand raw = CONFIRM \<Longrightarrow>
     onConfirmResult E R raw s = applyPlayerSan E R (r_pendingSan R) (stopListening s)"
  by (simp add: onConfirmResult_def)

text \<open>
  Claim C2, at two runs where the code departs from it. In the first, \<open>e4\<close> is
  pending and legal and the player says \<open>yes\<close>; the confirm callback hands the
  \<^verbatim>\<open>pendingSan\<close> of its render, the empty string, to chess.js, and the answer is
  \<open>Illegal move\<close>, with no move made. In the second the callback's render has
  \<open>Qxf7#\<close>, chess.js makes the move and reports checkmate: the move is recorded and
  the status is \<open>Checkmate.\<close>, but the mode is still CONFIRM and the pending SAN is
  still \<open>Qxf7#\<close>.
\<close>

theorem confirm_departs_from_pending:
  "mode (run toy_env plain_heard) = Mode_CONFIRM \<and>
   pendingSan (run toy_env plain_heard) = ''e4'' \<and>
   r_pendingSan (closure (recogs (run toy_env plain_heard) ! 1)) = [] \<and>
   move_san toy_chess (chess (run toy_env plain_heard)) ''e4'' = Some ([''e4''], ''e4'') \<and>
   interpretConfirmCommand ''yes'' = CONFIRM \<and>
   moves (run toy_env (plain_heard @ [Transcript 1 ''yes''])) = [] \<and>
   spoken (run toy_env (plain_heard @ [Transcript 1 ''yes''])) =
     [''I heard e4. Confirm or cancel.'', ''Illegal move. Please try again.''] \<and>
   mode (run toy_env mate_heard) = Mode_CONFIRM \<and>
   pendingSan (run toy_env mate_heard) = ''Qxf7#'' \<and>
   r_pendingSan (closure (recogs (run toy_env mate_heard) ! 3)) = ''Qxf7#'' \<and>
   moves (run toy_env (mate_heard @ [Transcript 3 ''yes''])) = [''Qxf7#''] \<and>
   status (run toy_env (mate_heard @ [Transcript 3 ''yes''])) = ''Checkmate.'' \<and>
   mode (run toy_env (mate_heard @ [Transcript 3 ''yes''])) = Mode_CONFIRM \<and>
   pendingSan (run toy_env (mate_heard @ [Transcript 3 ''yes''])) = ''Qxf7#''"
proof -
  let ?R0 = "\<lparr>r_busy = False, r_pendingSan = []\<rparr>"
  let ?R1 = "\<lparr>r_busy = False, r_pendingSan = ''Qxf7#''\<rparr>"
  let ?p = "\<lparr>chess = [], moves = [], status = ''Confirm: . Say confirm or cancel.'',
      busy = False, listening = False, mode = Mode_CONFIRM, pendingSan = ''e4'',
      recogs = [\<lparr>onResult = MoveCallback, closure = ?R0, stopped = True, finished = True\<rparr>,
                \<lparr>onResult = ConfirmCallback, closure = ?R0, stopped = False, finished = False\<rparr>],
      started = 2, spoken = [''I heard e4. Confirm or cancel.''],
      engine_msgs = [''uci'', ''isready'']\<rparr> :: string list app"
  let ?m = "\<lparr>chess = [], moves = [], status = ''Confirm: Qxf7#. Say confirm or cancel.'',
      busy = False, listening = False, mode = Mode_CONFIRM, pendingSan = ''Qxf7#'',
      recogs = [\<lparr>onResult = MoveCallback, closure = ?R0, stopped = True, finished = True\<rparr>,
                \<lparr>onResult = ConfirmCallback, closure = ?R0, stopped = True, finished = False\<rparr>,
                \<lparr>onResult = MoveCallback, closure = ?R1, stopped = True, finished = True\<rparr>,
                \<lparr>onResult = ConfirmCallback, closure = ?R1, stopped = False, finished = False\<rparr>],
      started = 4,
      spoken = [''I heard Qxf7#. Confirm or cancel.'', ''I heard Qxf7#. Confirm or cancel.''],
      engine_msgs = [''uci'', ''isready'']\<rparr> :: string list app"
  have p: "run toy_env plain_heard = ?p" by code_simp
  have m: "run toy_env mate_heard = ?m" by code_simp
  have legal: "move_san toy_chess [] ''e4'' = Some ([''e4''], ''e4'')" by code_simp
  have yes: "interpretConfirmCommand ''yes'' = CONFIRM" by code_simp
  have p': "moves (deliver toy_env (Transcript 1 ''yes'') ?p) = []"
    "spoken (deliver toy_env (Transcript 1 ''yes'') ?p) =
       [''I heard e4. Confirm or cancel.'', ''Illegal move. Please try again.'']"
    by code_simp+
  have m': "moves (deliver toy_env (Transcript 3 ''yes'') ?m) = [''Qxf7#'']"
    "status (deliver toy_env (Transcript 3 ''yes'') ?m) = ''Checkmate.''"
    "mode (deliver toy_env (Transcript 3 ''yes'') ?m) = Mode_CONFIRM"
    "pendingSan (deliver toy_env (Transcript 3 ''yes'') ?m) = ''Qxf7#''"
    by code_simp+
  show ?thesis
    unfolding run_snoc p m using legal yes p' m' by simp
qed

text \<open>
  Claim C7. A speech error sets the mode to MOVE, clears the pending SAN, tells the user
  and starts no recognition session: the count of sessions started is unchanged and no
  recognizer is created. A transcript without an interpretation, heard by a move
  callback, does start a new session.
\<close>

theorem speech_error_no_restart:
  "(canDeliver s i \<longrightarrow>
      mode (deliver E (SpeechError i) s) = Mode_MOVE \<and>
      pendingSan (deliver E (SpeechError i) s) = [] \<and>
      status (deliver E (SpeechError i) s) = ''Speech error. Click Start.'' \<and>
      spoken (deliver E (SpeechError i) s) = spoken s @ [''Speech error. Please click Start.''] \<and>
      started (deliver E (SpeechError i) s) = started s \<and>
      recogs (deliver E (SpeechError i) s) = (recogs s)[i := (recogs s ! i)\<lparr>finished := True\<rparr>])
   \<and> (canDeliver s i \<and> onResult (recogs s ! i) = MoveCallback \<and> sanFromSpeech raw = [] \<and>
       \<not> r_busy (closure (recogs s ! i)) \<and> speechSupported E \<longrightarrow>
      mode (deliver E (Transcript i raw) s) = Mode_MOVE \<and>
      pendingSan (deliver E (Transcript i raw) s) = [] \<and>
      spoken (deliver E (Transcript i raw) s) =
        spoken s @ [''I did not catch that. Please repeat.''] \<and>
      started (deliver E (Transcript i raw) s) = started s + 1 \<and>
      recogs (deliver E (Transcript i raw) s) =
        stopCurrent ((recogs s)[i := (recogs s ! i)\<lparr>finished := True\<rparr>]) @
        [\<lparr>onResult = MoveCallback, closure = closure (recogs s ! i), stopped = False,
          finished = False\<rparr>])"
proof -
  have err: "deliver E (SpeechError i) s = onError (markFinished i s)"
    if "canDeliver s i"
    using that by (simp add: deliver_def)
  have heard: "deliver E (Transcript i raw) s =
      startListeningForMove E (closure (recogs s ! i))
        (speak ''I did not catch that. Please repeat.''
           (setStatus (''Heard: '' @ [CHR 0x22] @ raw @ [CHR 0x22] @ '' -> (empty). Try again.'')
              (markFinished i s)))"
    if "canDeliver s i" and "onResult (recogs s ! i) = MoveCallback" and "sanFromSpeech raw = []"
    using that by (simp add: deliver_def onMoveResult_def)
  show ?thesis
  proof (intro conjI impI)
    assume a: "canDeliver s i"
    show "mode (deliver E (SpeechError i) s) = Mode_MOVE"
      and "pendingSan (deliver E (SpeechError i) s) = []"
      and "status (deliver E (SpeechError i) s) = ''Speech error. Click Start.''"
      and "spoken (deliver E (SpeechError i) s) = spoken s @ [''Speech error. Please click Start.'']"
      and "started (deliver E (SpeechError i) s) = started s"
      and "recogs (deliver E (SpeechError i) s) =
             (recogs s)[i := (recogs s ! i)\<lparr>finished := True\<rparr>]"
      unfolding err [OF a] by (simp_all add: onError_def speak_def setStatus_def markFinished_def)
  next
    assume b: "canDeliver s i \<and> onResult (recogs s ! i) = MoveCallback \<and> sanFromSpeech raw = [] \<and>
       \<not> r_busy (closure (recogs s ! i)) \<and> speechSupported E"
    then have h: "canDeliver s i" "onResult (recogs s ! i) = MoveCallback" "sanFromSpeech raw = []"
      by simp_all
    from b show "mode (deliver E (Transcript i raw) s) = Mode_MOVE"
      and "pendingSan (deliver E (Transcript i raw) s) = []"
      and "spoken (deliver E (Transcript i raw) s) =
             spoken s @ [''I did not catch that. Please repeat.'']"
      and "started (deliver E (Transcript i raw) s) = started s + 1"
      and "recogs (deliver E (Transcript i raw) s) =
        stopCurrent ((recogs s)[i := (recogs s ! i)\<lparr>finished := True\<rparr>]) @
        [\<lparr>onResult = MoveCallback, closure = closure (recogs s ! i), stopped = False,
          finished = False\<rparr>]"
      unfolding heard [OF h] by (simp_all add: ctl_defs markFinished_def Let_def)
  qed
qed

theorem speech_error_no_restart_witness:
  "canDeliver (run toy_env plain_heard) 1 \<and>
   pendingSan (run toy_env plain_heard) = ''e4'' \<and>
   started (run toy_env plain_heard) = 2 \<and>
   mode (deliver toy_env (SpeechError 1) (run toy_env plain_heard)) = Mode_MOVE \<and>
   pendingSan (deliver toy_env (SpeechError 1) (run toy_env plain_heard)) = [] \<and>
   started (deliver toy_env (SpeechError 1) (run toy_env plain_heard)) = 2 \<and>
   length (recogs (deliver toy_env (SpeechError 1) (run toy_env plain_heard))) = 2 \<and>
   canDeliver (run toy_env [ClickStart]) 0 \<and> sanFromSpeech ''?!'' = [] \<and>
   started (run toy_env [ClickStart]) = 1 \<and>
   started (deliver toy_env (Transcript 0 ''?!'') (run toy_env [ClickStart])) = 2 \<and>
   length (recogs (deliver toy_env (Transcript 0 ''?!'') (run toy_env [ClickStart]))) = 2"
proof -
  have a: "canDeliver (run toy_env plain_heard) 1" by code_simp
  have b: "pendingSan (run toy_env plain_heard) = ''e4''" by code_simp
  have c: "started (run toy_env plain_heard) = 2" by code_simp
  have l: "length (recogs (run toy_env plain_heard)) = 2" by code_simp
  have d: "canDeliver (run toy_env [ClickStart]) 0" by code_simp
  have d': "onResult (recogs (run toy_env [ClickStart]) ! 0) = MoveCallback" by code_simp
  have e: "sanFromSpeech ''?!'' = []" by code_simp
  have f: "\<not> r_busy (closure (recogs (run toy_env [ClickStart]) ! 0))" by code_simp
  have g: "speechSupported toy_env" by code_simp
  have h: "started (run toy_env [ClickStart]) = 1" by code_simp
  have l': "length (recogs (run toy_env [ClickStart])) = 1" by code_simp
  have 1: "mode (deliver toy_env (SpeechError 1) (run toy_env plain_heard)) = Mode_MOVE \<and>
      pendingSan (deliver toy_env (SpeechError 1) (run toy_env plain_heard)) = [] \<and>
      started (deliver toy_env (SpeechError 1) (run toy_env plain_heard)) = 2 \<and>
      length (recogs (deliver toy_env (SpeechError 1) (run toy_env plain_heard))) = 2"
    using a c l
      speech_error_no_restart [where s = "run toy_env plain_heard" and i = 1
        and E = toy_env and raw = "''?!''"]
    by simp
  have 2: "started (deliver toy_env (Transcript 0 ''?!'') (run toy_env [ClickStart])) = 2 \<and>
      length (recogs (deliver toy_env (Transcript 0 ''?!'') (run toy_env [ClickStart]))) = 2"
    using d d' e f g h l'
      speech_error_no_restart [where s = "run toy_env [ClickStart]" and i = 0
        and E = toy_env and raw = "''?!''"]
    by (simp add: length_stopCurrent)
  from a b c d e h 1 2 show ?thesis by simp
qed

section \<open>Properties of the interpreter\<close>

lemma file_char:
  assumes "97 \<le> code f" and "code f \<le> 104"
  shows "toLowerC f = f" "\<not> isSpace f" "isLowerAlnum f" "f \<noteq> CHR ''-''" "f \<noteq> CHR '' ''"
    "f \<noteq> CHR ''o''" "f \<noteq> CHR ''=''" "f \<noteq> CHR ''x''" "f \<noteq> CHR ''+''" "f \<noteq> CHR ''#''"
  using assms by (auto simp: toLowerC_def isSpace_def isLowerAlnum_def code_def)

lemma rank_char:
  assumes "49 \<le> code r" and "code r \<le> 56"
  shows "toLowerC r = r" "\<not> isSpace r" "isLowerAlnum r" "r \<noteq> CHR ''-''" "r \<noteq> CHR '' ''"
    "r \<noteq> CHR ''o''" "r \<noteq> CHR ''=''" "r \<noteq> CHR ''x''" "r \<noteq> CHR ''+''" "r \<noteq> CHR ''#''"
  using assms by (auto simp: toLowerC_def isSpace_def isLowerAlnum_def code_def)

lemma space_char: "toLowerC CHR '' '' = CHR '' ''" "isSpace CHR '' ''"
  by (simp_all add: toLowerC_def isSpace_def code_def)

lemma includes_str_short: "length s < length w \<Longrightarrow> \<not> includes_str s w"
  by (induction s) (auto simp: startsWith_def)

lemma file_set: "f \<in> set ''abcdefgh'' \<Longrightarrow> 97 \<le> code f \<and> code f \<le> 104"
  by (auto simp: code_def)

lemma rank_set: "r \<in> set ''12345678'' \<Longrightarrow> 49 \<le> code r \<and> code r \<le> 56"
  by (auto simp: code_def)

lemma normToken_single:
  "toLowerC c = c \<Longrightarrow> \<not> isSpace c \<Longrightarrow> isLowerAlnum c \<Longrightarrow> normToken [c] = [c]"
  by (simp add: normToken_def toLowerCase_def trim_def numberWords_def)

lemma pair_cleaned:
  assumes f: "97 \<le> code f" "code f \<le> 104" and r: "49 \<le> code r" "code r \<le> 56"
  shows "cleaned_of [f, CHR '' '', r] = [f, CHR '' '', r]"
  using file_char [OF f] rank_char [OF r]
  by (simp add: cleaned_of_def toLowerCase_def space_char trim_def)

lemma pair_castling:
  assumes f: "97 \<le> code f" "code f \<le> 104"
  shows "castling [f, CHR '' '', r] = None"
  using file_char [OF f]
  by (simp add: castling_def includes_str_short del: includes_str.simps)

lemma pair_tokens:
  assumes f: "97 \<le> code f" "code f \<le> 104" and r: "49 \<le> code r" "code r \<le> 56"
  shows "tokens_of [f, CHR '' '', r] = [[f], [r]]"
  using file_char [OF f] rank_char [OF r]
  by (simp add: tokens_of_def normToken_single)

lemma promo_scan_pair: "promo_scan [[f], [r]] = []"
  by (simp add: promo_scan_def isPromoteWord_def upt_rec numeral_2_eq_2)

lemma pair_pawnPush:
  assumes f: "97 \<le> code f" "code f \<le> 104" and r: "49 \<le> code r" "code r \<le> 56"
  shows "isPawnPush [[f], [r]]" and "pawnPush [[f], [r]] = [f, r]"
  using f r
  by (simp_all add: isPawnPush_def pawnPush_def isFile_def isRank_def toSquare_def promo_scan_pair
      check_suffix_def hasMate_def hasCheck_def)

text \<open>
  Claim C4. For every file letter \<open>f\<close> of \<open>a\<close>..\<open>h\<close> and every rank digit \<open>r\<close> of
  \<open>1\<close>..\<open>8\<close>, the transcript \<open>f r\<close> is normalized to the two tokens \<open>f\<close> and \<open>r\<close>, and
  its interpretation is the two-character string \<open>fr\<close>, with nothing before or after.
\<close>

theorem pawn_push_identity:
  assumes "f \<in> set ''abcdefgh''" and "r \<in> set ''12345678''"
  shows "tokens_of (cleaned_of [f, CHR '' '', r]) = [[f], [r]] \<and>
         sanFromSpeech [f, CHR '' '', r] = [f, r]"
proof -
  from assms have f: "97 \<le> code f" "code f \<le> 104" and r: "49 \<le> code r" "code r \<le> 56"
    using file_set rank_set by auto
  have c: "cleaned_of [f, CHR '' '', r] = [f, CHR '' '', r]" using f r by (rule pair_cleaned)
  have t: "tokens_of [f, CHR '' '', r] = [[f], [r]]" using f r by (rule pair_tokens)
  have "sanFromSpeech [f, CHR '' '', r] = pawnPush [[f], [r]]"
    by (simp add: sanFromSpeech_def c t pair_castling [OF f] pair_pawnPush(1) [OF f r])
  with c t pair_pawnPush(2) [OF f r] show ?thesis by simp
qed

theorem pawn_push_identity_witness:
  "CHR ''e'' \<in> set ''abcdefgh'' \<and> CHR ''4'' \<in> set ''12345678'' \<and> sanFromSpeech ''e 4'' = ''e4''"
  using pawn_push_identity [of "CHR ''e''" "CHR ''4''"] by simp

text \<open>A loop over the indices that overwrites its result: the last index that fires decides.\<close>

lemma fold_last_hit:
  assumes "i < n" and "p i" and "\<forall>j \<in> {i + 1 ..< n}. \<not> p j"
  shows "fold (\<lambda>k d. if p k then g k else d) [0 ..< n] d0 = g i"
  using assms
proof (induction n)
  case 0
  then show ?case by simp
next
  case (Suc n)
  show ?case
  proof (cases "i = n")
    case True
    with Suc.prems show ?thesis by simp
  next
    case False
    with Suc.prems have "i < n" and "\<not> p n" and "\<forall>j \<in> {i + 1 ..< n}. \<not> p j" by auto
    with Suc.IH Suc.prems(2) show ?thesis by simp
  qed
qed

lemma fold_no_hit:
  "\<forall>j < n. \<not> p j \<Longrightarrow> fold (\<lambda>k d. if p k then g k else d) [0 ..< n] d0 = d0"
  by (induction n) simp_all

lemma dest_scan_last:
  assumes "lastFilePair tokens i"
  shows "dest_scan tokens = tokens ! i @ tokens ! (i + 1)"
proof -
  let ?p = "\<lambda>k. isFile (tokens ! k) \<and> isRank (tokens ! (k + 1))"
  from assms have i: "i < length tokens - 1" and pi: "?p i"
    and later: "\<forall>j \<in> {i + 1 ..< length tokens - 1}. \<not> ?p j"
    by (auto simp: lastFilePair_def filePairAt_def)
  have "dest_scan tokens = toSquare (tokens ! i) (tokens ! (i + 1))"
    unfolding dest_scan_def using i pi later by (rule fold_last_hit)
  with pi show ?thesis by (simp add: toSquare_def)
qed

lemma dest_scan_none:
  assumes "\<forall>i < length tokens. \<not> filePairAt tokens i"
  shows "dest_scan tokens = []"
proof -
  let ?p = "\<lambda>k. isFile (tokens ! k) \<and> isRank (tokens ! (k + 1))"
  from assms have "\<forall>j < length tokens - 1. \<not> ?p j" by (auto simp: filePairAt_def)
  then show ?thesis unfolding dest_scan_def by (rule fold_no_hit)
qed

lemma findIndex_Some:
  "findIndex p xs = Some k \<Longrightarrow> k < length xs \<and> p (xs ! k) \<and> (\<forall>j < k. \<not> p (xs ! j))"
proof (induction xs arbitrary: k)
  case Nil
  then show ?case by simp
next
  case (Cons x xs)
  show ?case
  proof (cases "p x")
    case True
    with Cons.prems show ?thesis by simp
  next
    case False
    with Cons.prems obtain k' where k': "findIndex p xs = Some k'" "k = Suc k'" by auto
    from Cons.IH [OF k'(1)] False k'(2) show ?thesis by (auto simp: less_Suc_eq_0_disj)
  qed
qed

lemma findIndex_None: "(findIndex p xs = None) = (\<forall>x \<in> set xs. \<not> p x)"
  by (induction xs) auto

lemma isFile_isRank_nonempty: "isFile f \<Longrightarrow> f \<noteq> []"
  by (auto simp: isFile_def split: list.splits)

text \<open>
  Claim C6. When no castling phrase matched, the tokens are neither a pawn push nor a pawn
  capture, and a piece word is present, the piece letter is that of the first piece word
  and the destination is the last adjacent (file, rank) pair of the whole token sequence:
  the result is the empty string when there is no such pair, and otherwise the piece
  letter, \<open>x\<close> when a capture word is present, the destination square, the promotion and
  the check or mate suffix.
\<close>

theorem piece_move_last_pair:
  assumes "raw \<noteq> []" and "castling (cleaned_of raw) = None"
    and "tokens = tokens_of (cleaned_of raw)"
    and "\<not> isPawnPush tokens" and "\<not> isPawnCapture tokens"
    and "findIndex isPieceWord tokens = Some k"
  shows "isPieceWord (tokens ! k) \<and> (\<forall>j < k. \<not> isPieceWord (tokens ! j)) \<and>
         ((\<forall>i < length tokens. \<not> filePairAt tokens i) \<longrightarrow> sanFromSpeech raw = []) \<and>
         (\<forall>i. lastFilePair tokens i \<longrightarrow>
            sanFromSpeech raw =
              the (map_of pieceWords (tokens ! k)) @
              (if \<exists>t \<in> set tokens. isCaptureWord t then ''x'' else []) @
              tokens ! i @ tokens ! (i + 1) @ promo_scan tokens @ check_suffix tokens)"
proof -
  have san: "sanFromSpeech raw = pieceMove tokens k"
    using assms by (simp add: sanFromSpeech_def Let_def)
  have cap: "(findIndex isCaptureWord tokens \<noteq> None) = (\<exists>t \<in> set tokens. isCaptureWord t)"
    by (simp add: findIndex_None)
  have none: "sanFromSpeech raw = []" if "\<forall>i < length tokens. \<not> filePairAt tokens i"
    using dest_scan_none [OF that] by (simp add: san pieceMove_def)
  have last: "sanFromSpeech raw =
              the (map_of pieceWords (tokens ! k)) @
              (if \<exists>t \<in> set tokens. isCaptureWord t then ''x'' else []) @
              tokens ! i @ tokens ! (i + 1) @ promo_scan tokens @ check_suffix tokens"
    if "lastFilePair tokens i" for i
  proof -
    from that have "isFile (tokens ! i)" by (simp add: lastFilePair_def filePairAt_def)
    then have "tokens ! i \<noteq> []" by (rule isFile_isRank_nonempty)
    then show ?thesis
      using dest_scan_last [OF that] cap by (simp add: san pieceMove_def Let_def)
  qed
  from findIndex_Some [OF assms(6)] none last show ?thesis by blast
qed


theorem piece_move_last_pair_witness:
  "sanFromSpeech ''knight from f three to e five'' = ''Ne5'' \<and>
   tokens_of (cleaned_of ''knight from f three to e five'') =
     [''knight'', ''from'', ''f'', ''3'', ''to'', ''e'', ''5''] \<and>
   lastFilePair [''knight'', ''from'', ''f'', ''3'', ''to'', ''e'', ''5''] 5 \<and>
   filePairAt [''knight'', ''from'', ''f'', ''3'', ''to'', ''e'', ''5''] 2 \<and>
   sanFromSpeech ''rook takes'' = []"
proof -
  let ?raw = "''knight from f three to e five''"
  let ?ts = "[''knight'', ''from'', ''f'', ''3'', ''to'', ''e'', ''5'']"
  have t: "tokens_of (cleaned_of ?raw) = ?ts" by code_simp
  have a: "?raw \<noteq> []" by simp
  have b: "castling (cleaned_of ?raw) = None" by code_simp
  have c: "\<not> isPawnPush ?ts" by code_simp
  have d: "\<not> isPawnCapture ?ts" by code_simp
  have e: "findIndex isPieceWord ?ts = Some 0" by code_simp
  have f: "lastFilePair ?ts 5" by code_simp
  have g: "filePairAt ?ts 2" by code_simp
  have h: "\<not> (\<exists>t \<in> set ?ts. isCaptureWord t)" by code_simp
  have i: "promo_scan ?ts = []" by code_simp
  have j: "check_suffix ?ts = []" by code_simp
  have k: "the (map_of pieceWords (?ts ! 0)) = ''N''" by code_simp
  have l: "?ts ! 5 = ''e''" "?ts ! (5 + 1) = ''5''" by simp_all
  let ?raw2 = "''rook takes''"
  have t2: "tokens_of (cleaned_of ?raw2) = [''rook'', ''takes'']" by code_simp
  have b2: "castling (cleaned_of ?raw2) = None" by code_simp
  have c2: "\<not> isPawnPush [''rook'', ''takes'']" by code_simp
  have d2: "\<not> isPawnCapture [''rook'', ''takes'']" by code_simp
  have e2: "findIndex isPieceWord [''rook'', ''takes''] = Some 0" by code_simp
  have f2: "\<forall>i < length [''rook'', ''takes'']. \<not> filePairAt [''rook'', ''takes''] i"
    by (simp add: filePairAt_def isFile_def less_Suc_eq numeral_2_eq_2)
  have "sanFromSpeech ?raw = ''N'' @ [] @ ''e'' @ ''5'' @ [] @ []"
    using piece_move_last_pair [OF a b t [symmetric] c d e] f h i j k l by simp
  moreover have "sanFromSpeech ?raw2 = []"
    using piece_move_last_pair [OF _ b2 t2 [symmetric] c2 d2 e2] f2 by simp
  ultimately show ?thesis using t f g by simp
qed









section \<open>Properties of the phrase normalizer\<close>

lemma alnum_char:
  assumes "isLowerAlnum c"
  shows "toLowerC c = c" "\<not> isSpace c" "c \<noteq> CHR ''-''" "c \<noteq> CHR '' ''"
  using assms by (auto simp: toLowerC_def isSpace_def isLowerAlnum_def code_def)

lemma dropWhile_none: "\<forall>c \<in> set s. \<not> p c \<Longrightarrow> dropWhile p s = s"
  by (cases s) simp_all

lemma trim_ends:
  assumes "s \<noteq> []" and "\<not> isSpace (hd s)" and "\<not> isSpace (last s)"
  shows "trim s = s"
proof -
  from assms(1,2) have a: "dropWhile isSpace s = s" by (cases s) simp_all
  from assms(1) obtain a as where r: "rev s = a # as" by (cases "rev s") simp_all
  then have "last s = a" by (metis hd_rev list.sel(1))
  with assms(3) have b: "dropWhile isSpace (rev s) = rev s" by (simp add: r)
  show ?thesis by (simp add: trim_def a b)
qed

lemma trim_token: "\<forall>c \<in> set t. \<not> isSpace c \<Longrightarrow> trim t = t"
  by (simp add: trim_def dropWhile_none)

lemma digit_tokens_all: "list_all isToken (map snd numberWords)"
  by code_simp

lemma digit_tokens: "(w, d) \<in> set numberWords \<Longrightarrow> isToken d"
  using digit_tokens_all by (force simp: list_all_iff)

lemma normToken_isToken:
  assumes "normToken t \<noteq> []"
  shows "isToken (normToken t)"
proof (cases "map_of numberWords (filter isLowerAlnum (trim (toLowerCase t)))")
  case None
  with assms show ?thesis by (auto simp: normToken_def isToken_def Let_def)
next
  case (Some d)
  then have "isToken d" by (blast dest: map_of_SomeD digit_tokens)
  with Some show ?thesis by (simp add: normToken_def Let_def)
qed

lemma normToken_fixed:
  assumes "isToken t"
  shows "normToken t = t"
proof -
  from assms have al: "\<forall>c \<in> set t. isLowerAlnum c" and nw: "map_of numberWords t = None"
    by (simp_all add: isToken_def)
  have 1: "toLowerCase t = t" using al by (simp add: toLowerCase_def alnum_char map_idI)
  have 2: "trim t = t" using al by (intro trim_token) (simp add: alnum_char)
  have 3: "filter isLowerAlnum t = t" using al by simp
  show ?thesis by (simp add: normToken_def 1 2 3 nw)
qed

lemma tokens_of_isToken: "\<forall>t \<in> set (tokens_of cleaned). isToken t"
  by (auto simp: tokens_of_def normToken_isToken)

text \<open>Joining tokens and splitting the result gives the tokens back.\<close>

lemma splitOn_nonempty: "splitOn d s \<noteq> []"
  by (induction s) (auto split: list.splits)

lemma splitOn_plain: "d \<notin> set t \<Longrightarrow> splitOn d t = [t]"
  by (induction t) auto

lemma splitOn_append: "d \<notin> set t \<Longrightarrow> splitOn d (t @ d # s) = t # splitOn d s"
  by (induction t) auto

lemma splitOn_join:
  assumes "ts \<noteq> []" and "\<forall>t \<in> set ts. CHR '' '' \<notin> set t"
  shows "splitOn CHR '' '' (join_sp ts) = ts"
  using assms
  by (induction ts rule: join_sp.induct) (simp_all add: splitOn_plain splitOn_append)

lemma collapse_ws_plain_append:
  "\<forall>c \<in> set t. \<not> isSpace c \<Longrightarrow> collapse_ws (t @ s) = t @ collapse_ws s"
  by (induction t) simp_all

lemma join_sp_hd:
  "ts \<noteq> [] \<Longrightarrow> \<forall>t \<in> set ts. t \<noteq> [] \<Longrightarrow> join_sp ts \<noteq> [] \<and> hd (join_sp ts) = hd (hd ts)"
  by (induction ts rule: join_sp.induct) simp_all

lemma join_sp_last:
  "ts \<noteq> [] \<Longrightarrow> \<forall>t \<in> set ts. t \<noteq> [] \<Longrightarrow> last (join_sp ts) = last (last ts)"
  by (induction ts rule: join_sp.induct) (simp_all add: join_sp_hd)

lemma collapse_ws_join:
  assumes "\<forall>t \<in> set ts. t \<noteq> [] \<and> (\<forall>c \<in> set t. \<not> isSpace c)"
  shows "collapse_ws (join_sp ts) = join_sp ts"
  using assms
proof (induction ts rule: join_sp.induct)
  case 1
  show ?case by simp
next
  case (2 t)
  then have "collapse_ws (t @ []) = t @ collapse_ws []"
    by (intro collapse_ws_plain_append) simp
  then show ?case by simp
next
  case (3 t u ts)
  from "3.prems" have t: "\<forall>c \<in> set t. \<not> isSpace c"
    and rest: "\<forall>t \<in> set (u # ts). t \<noteq> [] \<and> (\<forall>c \<in> set t. \<not> isSpace c)" by simp_all
  from rest have "join_sp (u # ts) \<noteq> [] \<and> hd (join_sp (u # ts)) = hd u"
    using join_sp_hd [of "u # ts"] by simp
  moreover from rest have "\<not> isSpace (hd u)" by (cases u) simp_all
  ultimately have dw: "dropWhile isSpace (join_sp (u # ts)) = join_sp (u # ts)"
    by (cases "join_sp (u # ts)") simp_all
  have sp: "isSpace CHR '' ''" by (simp add: isSpace_def code_def)
  have "collapse_ws (t @ CHR '' '' # join_sp (u # ts)) =
        t @ collapse_ws (CHR '' '' # join_sp (u # ts))"
    using t by (rule collapse_ws_plain_append)
  also have "\<dots> = t @ CHR '' '' # collapse_ws (join_sp (u # ts))"
    by (simp add: sp dw)
  also have "\<dots> = t @ CHR '' '' # join_sp (u # ts)"
    using "3.IH" rest by simp
  finally show ?case by simp
qed

lemma join_sp_chars:
  "c \<in> set (join_sp ts) \<Longrightarrow> c = CHR '' '' \<or> (\<exists>t \<in> set ts. c \<in> set t)"
  by (induction ts rule: join_sp.induct) auto

lemma cleaned_of_join:
  assumes "\<forall>t \<in> set ts. isToken t"
  shows "cleaned_of (join_sp ts) = join_sp ts"
proof -
  have ch: "toLowerC c = c \<and> c \<noteq> CHR ''-''" if "c \<in> set (join_sp ts)" for c
  proof -
    from join_sp_chars [OF that] show ?thesis
    proof
      assume "c = CHR '' ''"
      then show ?thesis by (simp add: toLowerC_def code_def)
    next
      assume "\<exists>t \<in> set ts. c \<in> set t"
      with assms have "isLowerAlnum c" by (auto simp: isToken_def)
      then show ?thesis by (simp add: alnum_char)
    qed
  qed
  have 1: "toLowerCase (join_sp ts) = join_sp ts"
    using ch by (simp add: toLowerCase_def map_idI)
  have 2: "map (\<lambda>c. if c = CHR ''-'' then CHR '' '' else c) (join_sp ts) = join_sp ts"
    using ch by (simp add: map_idI)
  have tok: "\<forall>t \<in> set ts. t \<noteq> [] \<and> (\<forall>c \<in> set t. \<not> isSpace c)"
    using assms by (auto simp: isToken_def alnum_char)
  have 3: "collapse_ws (join_sp ts) = join_sp ts" using tok by (rule collapse_ws_join)
  have 4: "trim (join_sp ts) = join_sp ts"
  proof (cases "ts = []")
    case True
    then show ?thesis by (simp add: trim_def)
  next
    case False
    with tok have ne: "join_sp ts \<noteq> []" and h: "hd (join_sp ts) = hd (hd ts)"
      and l: "last (join_sp ts) = last (last ts)"
      using join_sp_hd [of ts] join_sp_last [of ts] by simp_all
    from False have "hd ts \<in> set ts" and "last ts \<in> set ts" by simp_all
    with tok have "hd ts \<noteq> []" and "\<forall>c \<in> set (hd ts). \<not> isSpace c"
      and "last ts \<noteq> []" and "\<forall>c \<in> set (last ts). \<not> isSpace c" by blast+
    then have "\<not> isSpace (hd (hd ts))" "\<not> isSpace (last (last ts))"
      by simp_all
    with ne h l show ?thesis by (intro trim_ends) simp_all
  qed
  show ?thesis by (simp add: cleaned_of_def 1 2 3 4)
qed

lemma tokens_of_join:
  assumes "\<forall>t \<in> set ts. isToken t"
  shows "tokens_of (join_sp ts) = ts"
proof (cases "ts = []")
  case True
  then show ?thesis
    by (simp add: tokens_of_def normToken_def toLowerCase_def trim_def numberWords_def)
next
  case False
  have "\<forall>t \<in> set ts. CHR '' '' \<notin> set t"
    using assms alnum_char(4) by (auto simp: isToken_def)
  with False have sp: "splitOn CHR '' '' (join_sp ts) = ts" by (rule splitOn_join)
  have nt: "map normToken ts = ts" using assms by (simp add: normToken_fixed map_idI)
  have ne: "filter (\<lambda>t. t \<noteq> []) ts = ts" using assms by (simp add: isToken_def)
  show ?thesis by (simp add: tokens_of_def sp nt ne)
qed

text \<open>
  Claim C8. The phrase normalizer is idempotent: the tokens of any transcript, joined by
  single spaces and normalized again, are the same tokens.
\<close>

theorem normalize_idempotent:
  "normalize (join_sp (normalize raw)) = normalize raw"
proof -
  have ok: "\<forall>t \<in> set (normalize raw). isToken t"
    unfolding normalize_def by (rule tokens_of_isToken)
  show ?thesis
    unfolding normalize_def [of "join_sp (normalize raw)"]
    by (simp add: cleaned_of_join [OF ok] tokens_of_join [OF ok])
qed

theorem normalize_idempotent_witness:
  "normalize ''  Knight-F  THREE, takes!  '' = [''knight'', ''f'', ''3'', ''takes''] \<and>
   join_sp [''knight'', ''f'', ''3'', ''takes''] = ''knight f 3 takes'' \<and>
   normalize ''knight f 3 takes'' = [''knight'', ''f'', ''3'', ''takes'']"
proof -
  have a: "normalize ''  Knight-F  THREE, takes!  '' = [''knight'', ''f'', ''3'', ''takes'']"
    by code_simp
  have b: "join_sp [''knight'', ''f'', ''3'', ''takes''] = ''knight f 3 takes''" by simp
  have "normalize (join_sp [''knight'', ''f'', ''3'', ''takes'']) = [''knight'', ''f'', ''3'', ''takes'']"
    using normalize_idempotent [of "''  Knight-F  THREE, takes!  ''"] unfolding a .
  then show ?thesis unfolding b using a b by blast
qed

section \<open>The syntax of the results\<close>


lemma file_not:
  assumes "isFileC c"
  shows "c \<noteq> CHR ''+''" "c \<noteq> CHR ''#''" "c \<noteq> CHR ''=''" "c \<noteq> CHR ''x''"
    "c \<noteq> CHR ''Q''" "c \<noteq> CHR ''R''" "c \<noteq> CHR ''B''" "c \<noteq> CHR ''N''" "c \<noteq> CHR ''K''"
    "\<not> isRankC c"
  using assms by (auto simp: isRankC_def isFileC_def code_def)



























end
